theory Spec2Isabelle
  imports Main "HOL-Library.Word"
begin

section \<open>The sketch \<open>Sled_Control.ino\<close> as a function on traces\<close>

text \<open>
  The sketch is one Arduino \<open>loop()\<close> function over three globals. Everything it does is
  a call of the Arduino API, so a run is modelled by the list of API calls it makes (its
  trace), in program order, together with the globals. What the API returns to the sketch
  comes from the world: the byte the serial port presents, the successive values of
  \<open>millis()\<close> and the successive readings of the infrared sensor.
\<close>

subsection \<open>Pins, levels and API calls\<close>

text \<open>The \<open>#define\<close>d pins of lines 9 to 15, and the two digital levels.\<close>

datatype pin = LO_PIN | G_PIN | R_PIN | B_PIN | BZZ_PIN | IR_PIN | MTR_PIN

datatype level = LOW | HIGH

text \<open>
  One constructor for each API function \<open>loop()\<close> calls. A call that returns a value
  carries the value returned; \<open>Serial.available()\<close> carries whether the count it
  returned is positive, which is all the sketch looks at. The sketch prints through two
  overloads: \<open>Serial.println(char(inByte))\<close>, the echo of line 40, is
  \<open>SerialPrintlnChar\<close>, and \<open>Serial.println("R")\<close> of lines 60, 69 and 77 is
  \<open>SerialPrintln\<close>.
\<close>

datatype event =
    SerialAvailable bool
  | SerialRead char
  | SerialPrintlnChar char
  | SerialPrintln string
  | DigitalWrite pin level
  | AnalogWrite pin nat
  | DigitalRead pin level
  | Millis "32 word"
  | Delay nat

subsection \<open>Globals and world\<close>

text \<open>
  Lines 17 to 19: \<open>int inByte\<close>, and the two \<open>unsigned long\<close> timestamps, which are
  32 bits wide on Arduino boards, so \<open>curMil - prevMil\<close> wraps around.
  \<open>Serial.read()\<close> is only called after \<open>Serial.available() > 0\<close>, so it returns a
  byte, 0 to 255, which fits \<open>inByte\<close>.
\<close>

record sketch =
  inByte :: int
  curMil :: "32 word"
  prevMil :: "32 word"

definition init_sketch :: sketch where
  "init_sketch = \<lparr>inByte = 0, curMil = 0, prevMil = 0\<rparr>"

text \<open>
  The world answers the calls. Each of its three feeds is an endless sequence of answers,
  the next one first: \<open>serial\<close> has one entry for each call of \<open>loop()\<close>, \<open>None\<close>
  when \<open>Serial.available()\<close> is 0 at that call and \<open>Some b\<close> when a byte is waiting
  and \<open>Serial.read()\<close> returns \<open>b\<close>; \<open>clock\<close> has one entry for each call of
  \<open>millis()\<close>; \<open>sensor\<close> has one for each \<open>digitalRead(IR_PIN)\<close>. No assumption is
  made on the clock: a theorem that needs none holds for every clock.
\<close>

type_synonym 'a feed = "nat \<Rightarrow> 'a"

definition rest :: "'a feed \<Rightarrow> 'a feed" where
  "rest f = (\<lambda>k. f (Suc k))"

record world =
  serial :: "char option feed"
  clock :: "32 word feed"
  sensor :: "level feed"

definition millis :: "world \<Rightarrow> 32 word \<times> world" where
  "millis w = (clock w 0, w\<lparr>clock := rest (clock w)\<rparr>)"

definition digitalRead_IR :: "world \<Rightarrow> level \<times> world" where
  "digitalRead_IR w = (sensor w 0, w\<lparr>sensor := rest (sensor w)\<rparr>)"

definition serial_poll :: "world \<Rightarrow> char option \<times> world" where
  "serial_poll w = (serial w 0, w\<lparr>serial := rest (serial w)\<rparr>)"

subsection \<open>The actuation wait-loop, lines 47 to 52\<close>

text \<open>
  \<^verbatim>\<open>while(curMil - prevMil < 500 || sensorVal == HIGH){
    digitalWrite(BZZ_PIN, HIGH);
    digitalWrite(MTR_PIN, HIGH);
    sensorVal = digitalRead(IR_PIN);
    curMil = millis();
  }\<close>
  \<open>digitalRead\<close> returns HIGH or LOW, so the local \<open>int sensorVal\<close> is a level.
  The loop can run forever, so the model counts iterations: \<open>wait_loop n\<close> runs at most
  \<open>n\<close> iterations and returns the trace so far, with \<open>None\<close> when the loop is still
  running after them and with the globals, the local \<open>sensorVal\<close> and the world when
  the condition was found false.
\<close>

fun wait_loop ::
  "nat \<Rightarrow> sketch \<Rightarrow> level \<Rightarrow> world \<Rightarrow> event list \<times> (sketch \<times> level \<times> world) option" where
  "wait_loop 0 st sensorVal w =
     (if curMil st - prevMil st < 500 \<or> sensorVal = HIGH then ([], None)
      else ([], Some (st, sensorVal, w)))"
| "wait_loop (Suc n) st sensorVal w =
     (if curMil st - prevMil st < 500 \<or> sensorVal = HIGH then
        (let (v, w1) = digitalRead_IR w;
             (t, w2) = millis w1;
             (tr, r) = wait_loop n (st\<lparr>curMil := t\<rparr>) v w2
         in ([DigitalWrite BZZ_PIN HIGH, DigitalWrite MTR_PIN HIGH,
              DigitalRead IR_PIN v, Millis t] @ tr, r))
      else ([], Some (st, sensorVal, w)))"

subsection \<open>The LED pulses, lines 53 to 81\<close>

text \<open>
  The code after the wait-loop has no branch and reads nothing: lines 53 to 55 stop the
  buzzer and the motor and wait, lines 58 to 81 pulse red, green and blue.
\<close>

definition stop_sled :: "event list" where
  "stop_sled =
     [DigitalWrite BZZ_PIN LOW, DigitalWrite MTR_PIN LOW, Delay 500]"

definition pulse_leds :: "event list" where
  "pulse_leds =
     [DigitalWrite BZZ_PIN HIGH, AnalogWrite R_PIN 255, SerialPrintln ''R'', Delay 100,
      DigitalWrite BZZ_PIN LOW, Delay 500,
      AnalogWrite R_PIN 0, DigitalWrite BZZ_PIN HIGH,
      AnalogWrite G_PIN 255, SerialPrintln ''G'', Delay 100,
      DigitalWrite BZZ_PIN LOW, Delay 500,
      AnalogWrite G_PIN 0, DigitalWrite BZZ_PIN HIGH,
      AnalogWrite B_PIN 255, SerialPrintln ''B'', Delay 100,
      DigitalWrite BZZ_PIN LOW, Delay 500,
      AnalogWrite B_PIN 0]"

subsection \<open>\<open>loop()\<close>, lines 37 to 84\<close>

text \<open>
  One call of \<open>loop()\<close>, with at most \<open>n\<close> iterations of the wait-loop. The result is
  the trace of the call and, when the call returns, the globals and the world after it.
\<close>

definition loop :: "nat \<Rightarrow> sketch \<Rightarrow> world \<Rightarrow> event list \<times> (sketch \<times> world) option" where
  "loop n st w =
     (case serial_poll w of
        (None, w0) \<Rightarrow> ([SerialAvailable False], Some (st, w0))
      | (Some b, w0) \<Rightarrow>
          (let st1 = st\<lparr>inByte := of_char b\<rparr>;
               echo = [SerialAvailable True, SerialRead b,
                       SerialPrintlnChar (char_of (inByte st1))]
           in if char_of (inByte st1) = CHR ''T'' then
                (let (t0, w1) = millis w0;
                     (tr, r) = wait_loop n (st1\<lparr>prevMil := t0\<rparr>) HIGH w1
                 in case r of
                      None \<Rightarrow> (echo @ [Millis t0] @ tr, None)
                    | Some (st2, sensorVal, w2) \<Rightarrow>
                        (echo @ [Millis t0] @ tr @ stop_sled @ pulse_leds, Some (st2, w2)))
              else (echo, Some (st1, w0))))"

text \<open>
  The Arduino runtime calls \<open>loop()\<close> again and again; \<open>loops k n\<close> is the first \<open>k\<close>
  calls. A call that hangs in its wait-loop ends the run.
\<close>

fun loops :: "nat \<Rightarrow> nat \<Rightarrow> sketch \<Rightarrow> world \<Rightarrow> event list \<times> (sketch \<times> world) option" where
  "loops 0 n st w = ([], Some (st, w))"
| "loops (Suc k) n st w =
     (case loop n st w of
        (tr, None) \<Rightarrow> (tr, None)
      | (tr, Some (st', w')) \<Rightarrow> (let (tr', r) = loops k n st' w' in (tr @ tr', r)))"

subsection \<open>Reading a trace\<close>

text \<open>
  The lines printed on the serial link, in order: both overloads of \<open>println\<close> print
  their argument and a line end.
\<close>

fun serial_out :: "event list \<Rightarrow> string list" where
  "serial_out [] = []"
| "serial_out (SerialPrintlnChar c # es) = [c] # serial_out es"
| "serial_out (SerialPrintln s # es) = s # serial_out es"
| "serial_out (e # es) = serial_out es"

text \<open>The colour tokens are the three strings that lines 60, 69 and 77 print.\<close>

fun is_token :: "event \<Rightarrow> bool" where
  "is_token (SerialPrintln s) = (s = ''R'' \<or> s = ''G'' \<or> s = ''B'')"
| "is_token e = False"

text \<open>The calls that drive an output pin, and the last value driven on a pin.\<close>

datatype drive = Digital level | Analog nat

fun written :: "event \<Rightarrow> (pin \<times> drive) option" where
  "written (DigitalWrite p v) = Some (p, Digital v)"
| "written (AnalogWrite p x) = Some (p, Analog x)"
| "written e = None"

definition writes_to :: "pin \<Rightarrow> event \<Rightarrow> bool" where
  "writes_to p e = (case written e of Some (q, d) \<Rightarrow> q = p | None \<Rightarrow> False)"

definition is_write :: "event \<Rightarrow> bool" where
  "is_write e = (written e \<noteq> None)"

fun driven :: "pin \<Rightarrow> event list \<Rightarrow> drive option" where
  "driven p [] = None"
| "driven p (e # es) =
     (case driven p es of
        Some d \<Rightarrow> Some d
      | None \<Rightarrow> (case written e of
                   Some (q, d) \<Rightarrow> if q = p then Some d else None
                 | None \<Rightarrow> None))"

text \<open>The calls that look at the serial input.\<close>

fun is_serial_input :: "event \<Rightarrow> bool" where
  "is_serial_input (SerialAvailable a) = True"
| "is_serial_input (SerialRead b) = True"
| "is_serial_input e = False"

text \<open>
  \<open>following x es\<close>: for each occurrence of \<open>x\<close> in \<open>es\<close>, the events after it;
  \<open>preceding x es\<close>: for each occurrence, the event just before it, if any.
\<close>

fun following :: "'a \<Rightarrow> 'a list \<Rightarrow> 'a list list" where
  "following x [] = []"
| "following x (e # es) = (if e = x then es # following x es else following x es)"

fun preceding_from :: "'a option \<Rightarrow> 'a \<Rightarrow> 'a list \<Rightarrow> 'a option list" where
  "preceding_from p x [] = []"
| "preceding_from p x (e # es) =
     (if e = x then p # preceding_from (Some e) x es else preceding_from (Some e) x es)"

definition preceding :: "'a \<Rightarrow> 'a list \<Rightarrow> 'a option list" where
  "preceding x es = preceding_from None x es"

text \<open>The bytes the serial port presented in a list of polls, and the trace of a poll
  that does not trigger.\<close>

fun bytes_of :: "char option list \<Rightarrow> char list" where
  "bytes_of [] = []"
| "bytes_of (None # xs) = bytes_of xs"
| "bytes_of (Some b # xs) = b # bytes_of xs"

fun echo_of :: "char option \<Rightarrow> event list" where
  "echo_of None = [SerialAvailable False]"
| "echo_of (Some b) = [SerialAvailable True, SerialRead b, SerialPrintlnChar b]"

text \<open>The answers of the serial port to the first \<open>k\<close> calls of \<open>loop()\<close>.\<close>

definition polls :: "nat \<Rightarrow> world \<Rightarrow> char option list" where
  "polls k w = map (serial w) [0..<k]"

text \<open>The events of the wait-loop: what its body calls.\<close>

fun wait_event :: "event \<Rightarrow> bool" where
  "wait_event (DigitalWrite p v) = ((p = BZZ_PIN \<or> p = MTR_PIN) \<and> v = HIGH)"
| "wait_event (DigitalRead p v) = (p = IR_PIN)"
| "wait_event (Millis t) = True"
| "wait_event e = False"

subsection \<open>Worlds to run the sketch in\<close>

text \<open>
  \<open>world_T\<close>: the host sends T; the clock reads 1000 when the wait-loop is entered, then
  1200, 1400, and so on; the sensor reads HIGH three times and LOW from then on.
  \<open>world_stuck\<close>: the same, with a sensor that reads HIGH for ever.
  \<open>world_XR\<close>: the host sends X and then R, and never T.
  \<open>stale_sketch\<close>: globals as an earlier cycle leaves them, with its timestamps.
\<close>

definition stale_sketch :: sketch where
  "stale_sketch = \<lparr>inByte = 84, curMil = 9000, prevMil = 8000\<rparr>"

definition world_T :: world where
  "world_T = \<lparr>serial = (\<lambda>k. if k = 0 then Some CHR ''T'' else None),
              clock = (\<lambda>k. 1000 + 200 * of_nat k),
              sensor = (\<lambda>k. if k < 3 then HIGH else LOW)\<rparr>"

definition world_stuck :: world where
  "world_stuck = world_T\<lparr>sensor := (\<lambda>k. HIGH)\<rparr>"

definition world_XR :: world where
  "world_XR = world_T\<lparr>serial := (\<lambda>k. if k = 0 then Some CHR ''X''
                                      else if k = 2 then Some CHR ''R'' else None)\<rparr>"

section \<open>Properties of the wait-loop\<close>

text \<open>
  Each lemma is an induction on the bound on iterations, with the globals, the local
  \<open>sensorVal\<close> and the world generalised, since every iteration changes them.
\<close>

lemma wait_loop_exit:
  "wait_loop n st sv w = (tr, Some (st', sv', w')) \<Longrightarrow>
     \<not> curMil st' - prevMil st' < 500 \<and> sv' = LOW"
proof (induction n arbitrary: st sv w tr)
  case 0
  then show ?case by (cases sv') (auto split: if_splits)
next
  case (Suc n)
  then show ?case by (cases sv') (auto split: if_splits prod.splits)
qed

lemma wait_loop_globals:
  "wait_loop n st sv w = (tr, Some (st', sv', w')) \<Longrightarrow>
     prevMil st' = prevMil st \<and> inByte st' = inByte st"
  by (induction n arbitrary: st sv w tr) (fastforce split: if_splits prod.splits)+

lemma wait_loop_serial:
  "wait_loop n st sv w = (tr, Some (st', sv', w')) \<Longrightarrow> serial w' = serial w"
  by (induction n arbitrary: st sv w tr)
     (fastforce simp: millis_def digitalRead_IR_def split: if_splits prod.splits)+

lemma wait_loop_events: "wait_loop n st sv w = (tr, r) \<Longrightarrow> list_all wait_event tr"
  by (induction n arbitrary: st sv w tr r) (auto split: if_splits prod.splits)

lemma wait_loop_done:
  "\<not> (curMil st - prevMil st < 500 \<or> sv = HIGH) \<Longrightarrow>
     wait_loop n st sv w = ([], Some (st, sv, w))"
  by (cases n) auto

lemma wait_loop_more:
  "wait_loop n st sv w = (tr, Some x) \<Longrightarrow> wait_loop (n + k) st sv w = (tr, Some x)"
proof (induction n arbitrary: st sv w tr)
  case 0
  then show ?case by (auto simp: wait_loop_done split: if_splits)
next
  case (Suc n)
  then show ?case by (auto split: if_splits prod.splits)
qed

lemma wait_loop_stuck:
  "\<forall>k. sensor w k = HIGH \<Longrightarrow> sv = HIGH \<Longrightarrow> wait_loop n st sv w = (tr, r) \<Longrightarrow>
     r = None \<and> length tr = 4 * n"
proof (induction n arbitrary: st w tr)
  case 0
  then show ?case by auto
next
  case (Suc n)
  let ?w2 = "w\<lparr>sensor := rest (sensor w), clock := rest (clock w)\<rparr>"
  obtain tr2 where tr: "tr = [DigitalWrite BZZ_PIN HIGH, DigitalWrite MTR_PIN HIGH,
              DigitalRead IR_PIN HIGH, Millis (clock w 0)] @ tr2"
    and rec: "wait_loop n (st\<lparr>curMil := clock w 0\<rparr>) HIGH ?w2 = (tr2, r)"
    using Suc.prems
    by (auto simp: millis_def digitalRead_IR_def split: prod.splits)
  have "\<forall>k. sensor ?w2 k = HIGH" using Suc.prems(1) by (simp add: rest_def)
  from Suc.IH [OF this Suc.prems(2) rec [unfolded Suc.prems(2) [symmetric]]] tr
  show ?case using Suc.prems(2) by simp
qed

text \<open>
  The time bound read the other way: while the clock readings stay within 500 of
  \<open>prevMil\<close> the loop goes on, whatever the sensor reads.
\<close>

lemma wait_loop_early:
  "\<forall>k<n. clock w k - prevMil st < 500 \<Longrightarrow> curMil st - prevMil st < 500 \<or> sv = HIGH \<Longrightarrow>
     wait_loop n st sv w = (tr, r) \<Longrightarrow> r = None \<and> length tr = 4 * n"
proof (induction n arbitrary: st sv w tr)
  case 0
  then show ?case by auto
next
  case (Suc n)
  let ?w2 = "w\<lparr>sensor := rest (sensor w), clock := rest (clock w)\<rparr>"
  let ?st2 = "st\<lparr>curMil := clock w 0\<rparr>"
  obtain tr2 where tr: "tr = [DigitalWrite BZZ_PIN HIGH, DigitalWrite MTR_PIN HIGH,
              DigitalRead IR_PIN (sensor w 0), Millis (clock w 0)] @ tr2"
    and rec: "wait_loop n ?st2 (sensor w 0) ?w2 = (tr2, r)"
    using Suc.prems
    by (auto simp: millis_def digitalRead_IR_def split: prod.splits)
  have a: "\<forall>k<n. clock ?w2 k - prevMil ?st2 < 500"
    using Suc.prems(1) by (simp add: rest_def)
  have b: "curMil ?st2 - prevMil ?st2 < 500 \<or> sensor w 0 = HIGH"
    using Suc.prems(1) by simp
  from Suc.IH [OF a b rec] tr show ?case by simp
qed

text \<open>
  The sketch measures time as the difference of two clock readings, modulo \<open>2 ^ 32\<close>.
  When the clock shows the true time in ms, reduced to 32 bits, a difference of at least
  500 on the clock is at least 500 ms of true time.
\<close>

lemma true_elapsed:
  fixes T0 T1 :: nat
  assumes "T0 \<le> T1" and "500 \<le> (of_nat T1 - of_nat T0 :: 32 word)"
  shows "500 \<le> T1 - T0"
proof -
  have "(of_nat T1 - of_nat T0 :: 32 word) = of_nat (T1 - T0)"
    using assms(1) by (simp add: of_nat_diff)
  then have "unat (of_nat T1 - of_nat T0 :: 32 word) = (T1 - T0) mod 2 ^ 32"
    by (simp add: unat_of_nat)
  moreover have "unat (500 :: 32 word) \<le> unat (of_nat T1 - of_nat T0 :: 32 word)"
    using assms(2) by (simp only: word_le_nat_alt)
  moreover have "(T1 - T0) mod 2 ^ 32 \<le> T1 - T0" by simp
  ultimately show ?thesis by simp
qed

text \<open>
  What a wait-loop that ends has done: \<open>m\<close> iterations, each taking one answer of the
  sensor and one of the clock; the last two events are its last poll and clock reading.
\<close>

lemma wait_loop_index:
  "wait_loop n st sv w = (tr, Some (st', sv', w')) \<Longrightarrow>
     \<exists>m\<le>n. length tr = 4 * m \<and>
       clock w' = (\<lambda>k. clock w (k + m)) \<and> sensor w' = (\<lambda>k. sensor w (k + m)) \<and>
       (m = 0 \<longrightarrow> st' = st \<and> sv' = sv) \<and>
       (0 < m \<longrightarrow> curMil st' = clock w (m - 1) \<and> sv' = sensor w (m - 1) \<and>
          (\<exists>pre. tr = pre @ [DigitalRead IR_PIN sv', Millis (curMil st')]))"
proof (induction n arbitrary: st sv w tr)
  case 0
  then show ?case by (auto split: if_splits)
next
  case (Suc n)
  show ?case
  proof (cases "curMil st - prevMil st < 500 \<or> sv = HIGH")
    case False
    with Suc.prems show ?thesis by auto
  next
    case True
    let ?v = "sensor w 0" and ?t = "clock w 0"
    let ?w2 = "w\<lparr>sensor := rest (sensor w), clock := rest (clock w)\<rparr>"
    obtain tr2 where tr: "tr = [DigitalWrite BZZ_PIN HIGH, DigitalWrite MTR_PIN HIGH,
              DigitalRead IR_PIN ?v, Millis ?t] @ tr2"
      and rec: "wait_loop n (st\<lparr>curMil := ?t\<rparr>) ?v ?w2 = (tr2, Some (st', sv', w'))"
      using Suc.prems True
      by (auto simp: millis_def digitalRead_IR_def split: prod.splits)
    from Suc.IH [OF rec] obtain m where m: "m \<le> n" "length tr2 = 4 * m"
      "clock w' = (\<lambda>k. clock ?w2 (k + m))" "sensor w' = (\<lambda>k. sensor ?w2 (k + m))"
      "m = 0 \<longrightarrow> st' = st\<lparr>curMil := ?t\<rparr> \<and> sv' = ?v"
      "0 < m \<longrightarrow> curMil st' = clock ?w2 (m - 1) \<and> sv' = sensor ?w2 (m - 1) \<and>
          (\<exists>pre. tr2 = pre @ [DigitalRead IR_PIN sv', Millis (curMil st')])"
      by blast
    show ?thesis
    proof (intro exI [of _ "Suc m"] conjI impI)
      show "Suc m \<le> Suc n" using m(1) by simp
      show "length tr = 4 * Suc m" using tr m(2) by simp
      show "clock w' = (\<lambda>k. clock w (k + Suc m))" using m(3) by (simp add: rest_def)
      show "sensor w' = (\<lambda>k. sensor w (k + Suc m))" using m(4) by (simp add: rest_def)
      show "st' = st" if "Suc m = 0" using that by simp
      show "sv' = sv" if "Suc m = 0" using that by simp
      show "curMil st' = clock w (Suc m - 1)"
        using m(5,6) by (cases m) (auto simp: rest_def)
      show "sv' = sensor w (Suc m - 1)"
        using m(5,6) by (cases m) (auto simp: rest_def)
      show "\<exists>pre. tr = pre @ [DigitalRead IR_PIN sv', Millis (curMil st')]"
      proof (cases m)
        case 0
        with m(5) tr m(2) show ?thesis by auto
      next
        case (Suc j)
        with m(6) obtain pre where "tr2 = pre @ [DigitalRead IR_PIN sv', Millis (curMil st')]"
          by auto
        with tr show ?thesis by auto
      qed
    qed
  qed
qed

section \<open>Properties of \<open>loop()\<close>\<close>

text \<open>
  \<open>loop\<close> with its local bindings unfolded: one case for each way through lines 38
  to 42. The byte T has code 84.
\<close>

lemma char_of_84: "char_of (84::int) = CHR ''T''"
  using char_of_char [of "CHR ''T''", where ?'a = int] by simp

lemma loop_unfold:
  "loop n st w =
     (case serial w 0 of
        None \<Rightarrow> ([SerialAvailable False], Some (st, w\<lparr>serial := rest (serial w)\<rparr>))
      | Some b \<Rightarrow>
          if b = CHR ''T'' then
            (case wait_loop n (st\<lparr>inByte := of_char b, prevMil := clock w 0\<rparr>) HIGH
                    (w\<lparr>serial := rest (serial w), clock := rest (clock w)\<rparr>) of
               (wtr, None) \<Rightarrow>
                 ([SerialAvailable True, SerialRead b, SerialPrintlnChar b, Millis (clock w 0)]
                    @ wtr, None)
             | (wtr, Some (st', sv, w')) \<Rightarrow>
                 ([SerialAvailable True, SerialRead b, SerialPrintlnChar b, Millis (clock w 0)]
                    @ wtr @ stop_sled @ pulse_leds, Some (st', w')))
          else ([SerialAvailable True, SerialRead b, SerialPrintlnChar b],
                Some (st\<lparr>inByte := of_char b\<rparr>, w\<lparr>serial := rest (serial w)\<rparr>)))"
  unfolding loop_def serial_poll_def millis_def Let_def
  by (simp add: char_of_84 split: option.splits prod.splits)

lemma wait_loop_numeral:
  "wait_loop (numeral k) st sv w =
     (if curMil st - prevMil st < 500 \<or> sv = HIGH then
        (case wait_loop (pred_numeral k) (st\<lparr>curMil := clock w 0\<rparr>) (sensor w 0)
                (w\<lparr>sensor := rest (sensor w), clock := rest (clock w)\<rparr>) of
           (tr, r) \<Rightarrow> ([DigitalWrite BZZ_PIN HIGH, DigitalWrite MTR_PIN HIGH,
              DigitalRead IR_PIN (sensor w 0), Millis (clock w 0)] @ tr, r))
      else ([], Some (st, sv, w)))"
  by (simp add: numeral_eq_Suc millis_def digitalRead_IR_def)

lemma wait_loop_Suc:
  "wait_loop (Suc n) st sv w =
     (if curMil st - prevMil st < 500 \<or> sv = HIGH then
        (case wait_loop n (st\<lparr>curMil := clock w 0\<rparr>) (sensor w 0)
                (w\<lparr>sensor := rest (sensor w), clock := rest (clock w)\<rparr>) of
           (tr, r) \<Rightarrow> ([DigitalWrite BZZ_PIN HIGH, DigitalWrite MTR_PIN HIGH,
              DigitalRead IR_PIN (sensor w 0), Millis (clock w 0)] @ tr, r))
      else ([], Some (st, sv, w)))"
  by (simp add: millis_def digitalRead_IR_def)

text \<open>
  When the sensor reads LOW at a poll and the clock reading after that poll is at least
  500 past \<open>prevMil\<close>, the wait-loop ends, at that check or an earlier one.
\<close>

lemma wait_loop_returns:
  "sensor w j = LOW \<Longrightarrow> 500 \<le> clock w j - prevMil st \<Longrightarrow>
     \<exists>tr r. wait_loop (Suc j) st sv w = (tr, Some r)"
proof (induction j arbitrary: st sv w)
  case 0
  then show ?case
    by (auto simp: millis_def digitalRead_IR_def not_less split: prod.splits)
next
  case (Suc j)
  let ?w2 = "w\<lparr>sensor := rest (sensor w), clock := rest (clock w)\<rparr>"
  let ?st2 = "st\<lparr>curMil := clock w 0\<rparr>"
  have "sensor ?w2 j = LOW" "500 \<le> clock ?w2 j - prevMil ?st2"
    using Suc.prems by (simp_all add: rest_def)
  from Suc.IH [OF this, of "sensor w 0"] obtain tr r where
    "wait_loop (Suc j) ?st2 (sensor w 0) ?w2 = (tr, Some r)" by blast
  then show ?case
    by (simp add: wait_loop_Suc [of "Suc j"] del: wait_loop.simps) (metis prod_cases3)
qed

lemmas run_simps = loop_unfold wait_loop_numeral millis_def digitalRead_IR_def rest_def
  world_T_def world_stuck_def world_XR_def init_sketch_def

lemma loop_trigger_done:
  "serial w 0 = Some CHR ''T'' \<Longrightarrow> loop n st w = (tr, Some (st', w')) \<Longrightarrow>
     \<exists>wtr sv. wait_loop n (st\<lparr>inByte := 84, prevMil := clock w 0\<rparr>) HIGH
                 (w\<lparr>serial := rest (serial w), clock := rest (clock w)\<rparr>) = (wtr, Some (st', sv, w')) \<and>
       tr = [SerialAvailable True, SerialRead CHR ''T'', SerialPrintlnChar CHR ''T'',
             Millis (clock w 0)] @ wtr @ stop_sled @ pulse_leds"
  by (auto simp: loop_unfold split: prod.splits option.splits)

lemma loop_echo: "serial w 0 \<noteq> Some CHR ''T'' \<Longrightarrow>
   \<exists>st'. loop n st w = (echo_of (serial w 0), Some (st', w\<lparr>serial := rest (serial w)\<rparr>))"
  by (cases "serial w 0") (auto simp: loop_unfold)


lemma loop_trigger_any:
  assumes "serial w 0 = Some CHR ''T''"
  shows "\<exists>wtr x. wait_loop n (st\<lparr>inByte := 84, prevMil := clock w 0\<rparr>) HIGH
                 (w\<lparr>serial := rest (serial w), clock := rest (clock w)\<rparr>) = (wtr, x) \<and>
           snd (loop n st w) = map_option (\<lambda>(st', sv, w'). (st', w')) x \<and>
           fst (loop n st w) =
             [SerialAvailable True, SerialRead CHR ''T'', SerialPrintlnChar CHR ''T'',
              Millis (clock w 0)] @ wtr @
             (case x of None \<Rightarrow> [] | Some y \<Rightarrow> stop_sled @ pulse_leds)"
  using assms by (auto simp: loop_unfold split: prod.splits option.splits)

lemma loop_more:
  "loop n st w = (tr, Some r) \<Longrightarrow> loop (n + k) st w = (tr, Some r)"
  by (auto simp: loop_unfold wait_loop_more split: option.splits if_splits prod.splits)

text \<open>A run of calls that meet no T only echoes.\<close>

lemma polls_Suc: "polls (Suc k) w = serial w 0 # polls k (w\<lparr>serial := rest (serial w)\<rparr>)"
  unfolding polls_def rest_def by (simp add: map_upt_Suc del: upt_Suc)

lemma bytes_of_mem: "b \<in> set (bytes_of xs) \<longleftrightarrow> Some b \<in> set xs"
  by (induction xs rule: bytes_of.induct) auto

lemma loops_echo:
  "CHR ''T'' \<notin> set (bytes_of (polls k w)) \<Longrightarrow>
     \<exists>st' w'. loops k n st w = (concat (map echo_of (polls k w)), Some (st', w'))"
proof (induction k arbitrary: st w)
  case 0
  then show ?case by (simp add: polls_def)
next
  case (Suc k)
  let ?w0 = "w\<lparr>serial := rest (serial w)\<rparr>"
  from Suc.prems have a: "serial w 0 \<noteq> Some CHR ''T''" and b: "CHR ''T'' \<notin> set (bytes_of (polls k ?w0))"
    by (auto simp: polls_Suc bytes_of_mem)
  from loop_echo [OF a] obtain st1 where l: "loop n st w = (echo_of (serial w 0), Some (st1, ?w0))"
    by blast
  from Suc.IH [OF b] obtain st' w' where
    "loops k n st1 ?w0 = (concat (map echo_of (polls k ?w0)), Some (st', w'))" by blast
  with l show ?case by (simp add: polls_Suc)
qed

lemma serial_out_echoes:
  "serial_out (concat (map echo_of xs)) = map (\<lambda>b. [b]) (bytes_of xs)"
  by (induction xs rule: bytes_of.induct) auto

lemma no_token_echoes: "filter is_token (concat (map echo_of xs)) = []"
  by (induction xs rule: bytes_of.induct) auto

lemma no_write_echoes: "filter is_write (concat (map echo_of xs)) = []"
  by (induction xs rule: bytes_of.induct) (auto simp: is_write_def)

text \<open>
  The shape of a cycle that returns: the wait-loop ran \<open>m\<close> iterations, at least one;
  its last poll of the sensor read LOW and its last clock reading is the \<open>m\<close>-th
  after the one taken on entry.
\<close>

lemma cycle_shape:
  assumes "serial w 0 = Some CHR ''T''" and "loop n st w = (tr, Some (st', w'))"
  shows "\<exists>m pre. 0 < m \<and> m \<le> n \<and> sensor w (m - 1) = LOW \<and> curMil st' = clock w m \<and>
           prevMil st' = clock w 0 \<and> \<not> curMil st' - prevMil st' < 500 \<and>
           serial w' = rest (serial w) \<and> list_all wait_event pre \<and>
           tr = [SerialAvailable True, SerialRead CHR ''T'', SerialPrintlnChar CHR ''T'',
                 Millis (clock w 0)] @ pre @ [DigitalRead IR_PIN LOW, Millis (clock w m)]
                 @ stop_sled @ pulse_leds"
proof -
  let ?st1 = "st\<lparr>inByte := 84, prevMil := clock w 0\<rparr>"
  let ?w1 = "w\<lparr>serial := rest (serial w), clock := rest (clock w)\<rparr>"
  from loop_trigger_done [OF assms]
  obtain wtr sv where wl: "wait_loop n ?st1 HIGH ?w1 = (wtr, Some (st', sv, w'))"
    and tr: "tr = [SerialAvailable True, SerialRead CHR ''T'', SerialPrintlnChar CHR ''T'',
             Millis (clock w 0)] @ wtr @ stop_sled @ pulse_leds"
    by blast
  from wait_loop_exit [OF wl] have ex: "\<not> curMil st' - prevMil st' < 500" "sv = LOW"
    by simp_all
  from wait_loop_globals [OF wl] have pm: "prevMil st' = clock w 0" by simp
  from wait_loop_serial [OF wl] have se: "serial w' = rest (serial w)" by simp
  have ev: "list_all wait_event wtr" by (rule wait_loop_events [OF wl])
  from wait_loop_index [OF wl] obtain m where m: "m \<le> n"
    "m = 0 \<longrightarrow> st' = ?st1 \<and> sv = HIGH"
    "0 < m \<longrightarrow> curMil st' = clock ?w1 (m - 1) \<and> sv = sensor ?w1 (m - 1) \<and>
          (\<exists>pre. wtr = pre @ [DigitalRead IR_PIN sv, Millis (curMil st')])"
    by blast
  from m(2) ex(2) have pos: "0 < m" by (cases m) auto
  with m(3) obtain pre where cm: "curMil st' = clock w m" and sm: "sensor w (m - 1) = LOW"
    and pre: "wtr = pre @ [DigitalRead IR_PIN LOW, Millis (clock w m)]"
    using ex(2) by (cases m) (auto simp: rest_def)
  from ev pre have "list_all wait_event pre" by simp
  with pos m(1) sm cm pm ex(1) se tr pre show ?thesis by auto
qed

text \<open>
  The same trace cut where the wait-loop is left: before the cut there are only events of
  the wait-loop, looks at the serial input and the echo of T.
\<close>

lemma cycle_split:
  assumes "serial w 0 = Some CHR ''T''" and "loop n st w = (tr, Some r)"
  shows "\<exists>pre t. list_all (\<lambda>e. wait_event e \<or> is_serial_input e \<or> e = SerialPrintlnChar CHR ''T'')
             pre \<and> tr = (pre @ [Millis t]) @ stop_sled @ pulse_leds"
proof -
  obtain st' w' where r: "r = (st', w')" by (cases r)
  from cycle_shape [OF assms(1) assms(2) [unfolded r]] obtain m pre where
    ev: "list_all wait_event pre" and
    tr: "tr = [SerialAvailable True, SerialRead CHR ''T'', SerialPrintlnChar CHR ''T'',
           Millis (clock w 0)] @ pre @ [DigitalRead IR_PIN LOW, Millis (clock w m)]
           @ stop_sled @ pulse_leds"
    by blast
  let ?pre = "[SerialAvailable True, SerialRead CHR ''T'', SerialPrintlnChar CHR ''T'',
           Millis (clock w 0)] @ pre @ [DigitalRead IR_PIN LOW]"
  have "list_all (\<lambda>e. wait_event e \<or> is_serial_input e \<or> e = SerialPrintlnChar CHR ''T'') ?pre"
    using ev by (auto simp: list_all_iff)
  moreover have "tr = (?pre @ [Millis (clock w m)]) @ stop_sled @ pulse_leds"
    using tr by simp
  ultimately show ?thesis by blast
qed

lemma before_pulses_notin:
  "list_all (\<lambda>e. wait_event e \<or> is_serial_input e \<or> e = SerialPrintlnChar CHR ''T'') pre \<Longrightarrow>
     \<not> wait_event x \<Longrightarrow> \<not> is_serial_input x \<Longrightarrow> x \<noteq> SerialPrintlnChar CHR ''T'' \<Longrightarrow>
     x \<notin> set (pre @ [Millis t])"
  by (auto simp: list_all_iff)

section \<open>Reading the trace of a cycle\<close>

text \<open>
  The wait-loop prints nothing, drives no LED and reads no serial input, so what a claim
  says about tokens, LEDs and serial input is decided by the events around it.
\<close>

lemma serial_out_append: "serial_out (xs @ ys) = serial_out xs @ serial_out ys"
  by (induction xs rule: serial_out.induct) auto

lemma wait_events_serial_out: "list_all wait_event tr \<Longrightarrow> serial_out tr = []"
  by (induction tr rule: serial_out.induct) auto

lemma wait_events_no_token: "list_all wait_event tr \<Longrightarrow> filter is_token tr = []"
  by (induction tr) (auto elim: wait_event.elims)

lemma wait_events_no_serial_input: "list_all wait_event tr \<Longrightarrow> filter is_serial_input tr = []"
  by (induction tr) (auto elim: wait_event.elims)

lemma following_append: "x \<notin> set xs \<Longrightarrow> following x (xs @ ys) = following x ys"
  by (induction xs) auto

lemma preceding_from_append:
  "x \<notin> set xs \<Longrightarrow>
     preceding_from p x (xs @ ys) = preceding_from (if xs = [] then p else Some (last xs)) x ys"
  by (induction xs arbitrary: p) auto

lemma driven_append:
  "driven p (xs @ ys) = (case driven p ys of Some d \<Rightarrow> Some d | None \<Rightarrow> driven p xs)"
  by (induction xs) (auto split: option.splits)

lemma driven_None: "\<forall>e\<in>set es. \<not> writes_to p e \<Longrightarrow> driven p es = None"
  by (induction es) (auto simp: writes_to_def split: option.splits)

lemma pulse_leds_motor: "driven MTR_PIN (take k pulse_leds) = None"
proof -
  have "\<forall>e\<in>set pulse_leds. \<not> writes_to MTR_PIN e"
    by (simp add: pulse_leds_def writes_to_def)
  then have "\<forall>e\<in>set (take k pulse_leds). \<not> writes_to MTR_PIN e"
    by (meson in_set_takeD)
  then show ?thesis by (simp add: driven_None)
qed

section \<open>Runs of the sketch in the example worlds\<close>

text \<open>
  In \<open>world_T\<close> the wait-loop ends at its fourth check: the sensor reads LOW at the
  fourth poll, 800 ms after the loop was entered.
\<close>

lemma run_T_returns: "snd (loop 4 init_sketch world_T) \<noteq> None"
  by (simp add: run_simps)

lemma run_T_eq:
  "loop 4 init_sketch world_T =
     (fst (loop 4 init_sketch world_T), Some (the (snd (loop 4 init_sketch world_T))))"
  using run_T_returns by (cases "loop 4 init_sketch world_T") auto

lemma world_T_serial: "serial world_T 0 = Some CHR ''T''"
  by (simp add: world_T_def)

lemma run_stale_returns: "snd (loop 4 stale_sketch world_T) \<noteq> None"
  by (simp add: run_simps stale_sketch_def)

lemma run_stale_eq:
  "loop 4 stale_sketch world_T =
     (fst (loop 4 stale_sketch world_T),
      Some (fst (the (snd (loop 4 stale_sketch world_T))),
            snd (the (snd (loop 4 stale_sketch world_T)))))"
  using run_stale_returns by (cases "loop 4 stale_sketch world_T") auto

lemma run_T_eq2:
  "loop 4 init_sketch world_T =
     (fst (loop 4 init_sketch world_T),
      Some (fst (the (snd (loop 4 init_sketch world_T))),
            snd (the (snd (loop 4 init_sketch world_T)))))"
  using run_T_returns by (cases "loop 4 init_sketch world_T") auto

lemma world_stuck_serial: "serial world_stuck 0 = Some CHR ''T''"
  by (simp add: world_stuck_def world_T_def)

lemma world_stuck_sensor: "\<forall>k. sensor world_stuck k = HIGH"
  by (simp add: world_stuck_def)

lemma polls_XR: "polls 3 world_XR = [Some CHR ''X'', None, Some CHR ''R'']"
  by (simp add: polls_def world_XR_def numeral_3_eq_3 upt_rec)

section \<open>The claims\<close>

text \<open>
  In every theorem \<open>serial w 0 = Some CHR ''T''\<close> says that the call of \<open>loop()\<close>
  finds the byte T waiting, which starts a cycle, and \<open>loop n st w = (tr, Some r)\<close>
  says that the call returns, so its wait-loop ended, within \<open>n\<close> iterations. By
  \<open>loop_more\<close> a larger \<open>n\<close> gives the same trace and the same result, and by
  \<open>wait_loop_returns\<close> the wait-loop does end in a world whose sensor reads LOW at
  some poll that the clock places at least 500 ms after entry.
\<close>

text \<open>
  C1. In a triggered cycle whose wait-loop ends, the lines printed are the echo of T and
  then the tokens R, G, B, in that order, and the tokens emitted are these three and no
  other.
\<close>

theorem C1_tokens_in_order:
  assumes "serial w 0 = Some CHR ''T''" and "loop n st w = (tr, Some r)"
  shows "serial_out tr = [''T'', ''R'', ''G'', ''B''] \<and>
         filter is_token tr = [SerialPrintln ''R'', SerialPrintln ''G'', SerialPrintln ''B'']"
proof -
  obtain st' w' where r: "r = (st', w')" by (cases r)
  from loop_trigger_done [OF assms(1) assms(2) [unfolded r]]
  obtain wtr x where wl: "wait_loop n (st\<lparr>inByte := 84, prevMil := clock w 0\<rparr>) HIGH
        (w\<lparr>serial := rest (serial w), clock := rest (clock w)\<rparr>) = (wtr, x)"
    and tr: "tr = [SerialAvailable True, SerialRead CHR ''T'', SerialPrintlnChar CHR ''T'',
             Millis (clock w 0)] @ wtr @ stop_sled @ pulse_leds"
    by blast
  have ev: "list_all wait_event wtr" by (rule wait_loop_events [OF wl])
  have "serial_out tr = [''T'', ''R'', ''G'', ''B'']"
    unfolding tr
    by (simp add: serial_out_append wait_events_serial_out [OF ev] stop_sled_def pulse_leds_def)
  moreover have "filter is_token tr =
      [SerialPrintln ''R'', SerialPrintln ''G'', SerialPrintln ''B'']"
    unfolding tr
    by (simp add: wait_events_no_token [OF ev] stop_sled_def pulse_leds_def)
  ultimately show ?thesis by simp
qed

theorem C1_witness:
  "serial world_T 0 = Some CHR ''T'' \<and> snd (loop 4 init_sketch world_T) \<noteq> None \<and>
   serial_out (fst (loop 4 init_sketch world_T)) = [''T'', ''R'', ''G'', ''B''] \<and>
   filter is_token (fst (loop 4 init_sketch world_T)) =
     [SerialPrintln ''R'', SerialPrintln ''G'', SerialPrintln ''B'']"
  using C1_tokens_in_order [OF world_T_serial run_T_eq] world_T_serial run_T_returns
  by simp

text \<open>
  C2. A triggered cycle does not leave its wait-loop before 500 ms have passed on the
  \<open>millis()\<close> clock since the loop was entered, whatever the sensor reads and whatever
  timestamp the global \<open>curMil\<close> still holds from an earlier cycle: on return
  \<open>prevMil\<close> is the reading taken on entry, \<open>curMil\<close> is a later reading of this
  cycle, the last event before the loop is left, and their unsigned 32-bit difference is
  at least 500. The first check of the condition, which sees the old \<open>curMil\<close>, never
  ends the loop, because \<open>sensorVal\<close> starts HIGH.
\<close>

theorem C2_wait_at_least_500ms:
  assumes "serial w 0 = Some CHR ''T''" and "loop n st w = (tr, Some (st', w'))"
  shows "prevMil st' = clock w 0 \<and>
         (\<exists>m. 0 < m \<and> m \<le> n \<and> curMil st' = clock w m) \<and>
         500 \<le> curMil st' - prevMil st' \<and>
         (\<exists>pre. tr = pre @ Millis (curMil st') # stop_sled @ pulse_leds)"
proof -
  from cycle_shape [OF assms] obtain m pre where
    "0 < m" "m \<le> n" "curMil st' = clock w m" "prevMil st' = clock w 0"
    "\<not> curMil st' - prevMil st' < 500"
    "tr = [SerialAvailable True, SerialRead CHR ''T'', SerialPrintlnChar CHR ''T'',
           Millis (clock w 0)] @ pre @ [DigitalRead IR_PIN LOW, Millis (clock w m)]
           @ stop_sled @ pulse_leds"
    by blast
  then show ?thesis by (auto simp: not_less)
qed

theorem C2_witness:
  "serial world_T 0 = Some CHR ''T'' \<and> snd (loop 4 stale_sketch world_T) \<noteq> None \<and>
   500 \<le> curMil stale_sketch - clock world_T 0 \<and>
   prevMil (fst (the (snd (loop 4 stale_sketch world_T)))) = 1000 \<and>
   curMil (fst (the (snd (loop 4 stale_sketch world_T)))) = 1800"
proof -
  have "curMil (fst (the (snd (loop 4 stale_sketch world_T)))) = 1800"
    by (simp add: run_simps stale_sketch_def)
  moreover have "500 \<le> curMil stale_sketch - clock world_T 0"
    by (simp add: stale_sketch_def world_T_def)
  ultimately show ?thesis
    using C2_wait_at_least_500ms [OF world_T_serial run_stale_eq] world_T_serial
      run_stale_returns
    by (simp add: world_T_def)
qed

text \<open>
  C3, as stated, fails: in \<open>world_T\<close> the cycle returns, its last call is
  \<open>analogWrite(B_PIN, 0)\<close> of line 81, and the value left on the blue channel is 0.
\<close>

theorem C3_counterexample:
  "serial world_T 0 = Some CHR ''T'' \<and> snd (loop 4 init_sketch world_T) \<noteq> None \<and>
   last (fst (loop 4 init_sketch world_T)) = AnalogWrite B_PIN 0 \<and>
   driven B_PIN (fst (loop 4 init_sketch world_T)) = Some (Analog 0)"
  by (simp add: run_simps stop_sled_def pulse_leds_def)

text \<open>
  C3, amended. At the end of every triggered cycle all three LED channels, red, green and
  blue, have been driven to 0. Blue is treated like red and green: it is at full output
  from its activation, through its token and the holds of 100 ms and 500 ms, and the last
  call of the cycle drives it to 0.
\<close>

theorem C3_all_leds_off:
  assumes "serial w 0 = Some CHR ''T''" and "loop n st w = (tr, Some r)"
  shows "driven R_PIN tr = Some (Analog 0) \<and> driven G_PIN tr = Some (Analog 0) \<and>
         driven B_PIN tr = Some (Analog 0) \<and> last tr = AnalogWrite B_PIN 0 \<and>
         following (AnalogWrite B_PIN 255) tr =
           [[SerialPrintln ''B'', Delay 100, DigitalWrite BZZ_PIN LOW, Delay 500,
             AnalogWrite B_PIN 0]]"
proof -
  from cycle_split [OF assms] obtain pre t where
    ev: "list_all (\<lambda>e. wait_event e \<or> is_serial_input e \<or> e = SerialPrintlnChar CHR ''T'') pre"
    and tr: "tr = (pre @ [Millis t]) @ stop_sled @ pulse_leds"
    by blast
  have d: "driven p pulse_leds = Some d \<Longrightarrow> driven p tr = Some d" for p d
    unfolding tr by (simp add: driven_append)
  have f: "following (AnalogWrite q x) tr = following (AnalogWrite q x) (stop_sled @ pulse_leds)"
    for q x
    unfolding tr by (rule following_append) (rule before_pulses_notin [OF ev], simp_all)
  have "driven R_PIN tr = Some (Analog 0)" by (rule d) (simp add: pulse_leds_def)
  moreover have "driven G_PIN tr = Some (Analog 0)" by (rule d) (simp add: pulse_leds_def)
  moreover have "driven B_PIN tr = Some (Analog 0)" by (rule d) (simp add: pulse_leds_def)
  moreover have "last tr = AnalogWrite B_PIN 0" unfolding tr by (simp add: pulse_leds_def)
  moreover have "following (AnalogWrite B_PIN 255) tr =
           [[SerialPrintln ''B'', Delay 100, DigitalWrite BZZ_PIN LOW, Delay 500,
             AnalogWrite B_PIN 0]]"
    by (simp add: f stop_sled_def pulse_leds_def)
  ultimately show ?thesis by simp
qed

theorem C3_witness:
  "serial world_T 0 = Some CHR ''T'' \<and> snd (loop 4 stale_sketch world_T) \<noteq> None \<and>
   driven R_PIN (fst (loop 4 stale_sketch world_T)) = Some (Analog 0) \<and>
   driven G_PIN (fst (loop 4 stale_sketch world_T)) = Some (Analog 0) \<and>
   driven B_PIN (fst (loop 4 stale_sketch world_T)) = Some (Analog 0)"
  using C3_all_leds_off [OF world_T_serial run_stale_eq] world_T_serial run_stale_returns
  by simp

text \<open>
  C4. The wait-loop of a triggered cycle is only left at a check that follows a poll of
  the sensor reading LOW, and at which 500 ms have passed since entry: the two events
  before the code after the loop are that poll and that clock reading.
\<close>

theorem C4_exit_needs_low_sensor:
  assumes "serial w 0 = Some CHR ''T''" and "loop n st w = (tr, Some (st', w'))"
  shows "\<exists>m pre. 0 < m \<and> m \<le> n \<and> sensor w (m - 1) = LOW \<and> 500 \<le> clock w m - clock w 0 \<and>
           tr = pre @ [DigitalRead IR_PIN LOW, Millis (clock w m)] @ stop_sled @ pulse_leds"
proof -
  from cycle_shape [OF assms] obtain m pre where
    "0 < m" "m \<le> n" "sensor w (m - 1) = LOW" "curMil st' = clock w m" "prevMil st' = clock w 0"
    "\<not> curMil st' - prevMil st' < 500"
    "tr = [SerialAvailable True, SerialRead CHR ''T'', SerialPrintlnChar CHR ''T'',
           Millis (clock w 0)] @ pre @ [DigitalRead IR_PIN LOW, Millis (clock w m)]
           @ stop_sled @ pulse_leds"
    by blast
  then show ?thesis
    by (intro exI [of _ m] exI [of _ "[SerialAvailable True, SerialRead CHR ''T'',
           SerialPrintlnChar CHR ''T'', Millis (clock w 0)] @ pre"]) (simp add: not_less)
qed

theorem C4_witness:
  "serial world_T 0 = Some CHR ''T'' \<and> snd (loop 4 init_sketch world_T) \<noteq> None \<and>
   (\<exists>m pre. 0 < m \<and> m \<le> 4 \<and> sensor world_T (m - 1) = LOW \<and>
      500 \<le> clock world_T m - clock world_T 0 \<and>
      fst (loop 4 init_sketch world_T) =
        pre @ [DigitalRead IR_PIN LOW, Millis (clock world_T m)] @ stop_sled @ pulse_leds)"
  using C4_exit_needs_low_sensor [OF world_T_serial run_T_eq2] world_T_serial run_T_returns
  by blast

text \<open>
  C5. When none of the bytes the serial port presents in the first \<open>k\<close> calls of
  \<open>loop()\<close> is T, every call returns and the trace is, for each call, the look at the
  serial port and, when a byte was waiting, its read and its echo. So every byte received
  is echoed and nothing else is printed, no token is emitted and no pin is driven. A token
  is a call of lines 60, 69 or 77; the echo of a received byte R, G or B is the call of
  line 40 and prints that letter, as \<open>serial_out\<close> shows.
\<close>

theorem C5_no_trigger_no_action:
  assumes "CHR ''T'' \<notin> set (bytes_of (polls k w))"
  shows "snd (loops k n st w) \<noteq> None \<and>
         fst (loops k n st w) = concat (map echo_of (polls k w)) \<and>
         serial_out (fst (loops k n st w)) = map (\<lambda>b. [b]) (bytes_of (polls k w)) \<and>
         filter is_token (fst (loops k n st w)) = [] \<and>
         filter is_write (fst (loops k n st w)) = []"
proof -
  from loops_echo [OF assms] obtain st' w' where
    "loops k n st w = (concat (map echo_of (polls k w)), Some (st', w'))" by blast
  then show ?thesis
    by (simp add: serial_out_echoes no_token_echoes no_write_echoes)
qed

theorem C5_witness:
  "CHR ''T'' \<notin> set (bytes_of (polls 3 world_XR)) \<and>
   snd (loops 3 5 init_sketch world_XR) \<noteq> None \<and>
   fst (loops 3 5 init_sketch world_XR) =
     [SerialAvailable True, SerialRead CHR ''X'', SerialPrintlnChar CHR ''X'',
      SerialAvailable False,
      SerialAvailable True, SerialRead CHR ''R'', SerialPrintlnChar CHR ''R''] \<and>
   serial_out (fst (loops 3 5 init_sketch world_XR)) = [''X'', ''R'']"
proof -
  have h: "CHR ''T'' \<notin> set (bytes_of (polls 3 world_XR))" by (simp add: polls_XR)
  from C5_no_trigger_no_action [OF h, of 5 init_sketch] h show ?thesis
    by (simp add: polls_XR)
qed

text \<open>
  C6. When the sensor reads HIGH at every poll, the wait-loop entered on T does not end:
  for every \<open>n\<close>, after \<open>n\<close> iterations (four events each, after the four events
  before the loop) the call has not returned, no token has been emitted and the only line
  printed is the echo of T.
\<close>

theorem C6_stuck_while_sensor_high:
  assumes "serial w 0 = Some CHR ''T''" and "\<forall>k. sensor w k = HIGH"
  shows "snd (loop n st w) = None \<and> length (fst (loop n st w)) = 4 + 4 * n \<and>
         filter is_token (fst (loop n st w)) = [] \<and>
         serial_out (fst (loop n st w)) = [''T'']"
proof -
  let ?w1 = "w\<lparr>serial := rest (serial w), clock := rest (clock w)\<rparr>"
  from loop_trigger_any [OF assms(1), of n st]
  obtain wtr x where wl: "wait_loop n (st\<lparr>inByte := 84, prevMil := clock w 0\<rparr>) HIGH ?w1
        = (wtr, x)"
    and r: "snd (loop n st w) = map_option (\<lambda>(st', sv, w'). (st', w')) x"
    and tr: "fst (loop n st w) =
             [SerialAvailable True, SerialRead CHR ''T'', SerialPrintlnChar CHR ''T'',
              Millis (clock w 0)] @ wtr @
             (case x of None \<Rightarrow> [] | Some y \<Rightarrow> stop_sled @ pulse_leds)"
    by blast
  have "\<forall>k. sensor ?w1 k = HIGH" using assms(2) by simp
  from wait_loop_stuck [OF this refl wl] have x: "x = None" and len: "length wtr = 4 * n"
    by simp_all
  have ev: "list_all wait_event wtr" by (rule wait_loop_events [OF wl])
  show ?thesis
    using r len
    by (simp add: tr x wait_events_no_token [OF ev] serial_out_append
          wait_events_serial_out [OF ev])
qed

theorem C6_witness:
  "serial world_stuck 0 = Some CHR ''T'' \<and> sensor world_stuck 7 = HIGH \<and>
   snd (loop 3 init_sketch world_stuck) = None \<and>
   length (fst (loop 3 init_sketch world_stuck)) = 16 \<and>
   serial_out (fst (loop 3 init_sketch world_stuck)) = [''T'']"
  using C6_stuck_while_sensor_high [OF world_stuck_serial world_stuck_sensor, of 3 init_sketch]
    world_stuck_serial world_stuck_sensor
  by simp

text \<open>
  C7. In a triggered cycle that returns, each token occurs once; the token R is followed
  by a hold of 100 ms, the buzzer driven LOW and a hold of 500 ms, and only then by the
  green stage (red off, buzzer on, green at 255, token G); the token G likewise, before
  the blue stage; the token B by the same two holds and blue off.
\<close>

theorem C7_holds_after_token:
  assumes "serial w 0 = Some CHR ''T''" and "loop n st w = (tr, Some r)"
  shows "map (take 7) (following (SerialPrintln ''R'') tr) =
           [[Delay 100, DigitalWrite BZZ_PIN LOW, Delay 500,
             AnalogWrite R_PIN 0, DigitalWrite BZZ_PIN HIGH, AnalogWrite G_PIN 255,
             SerialPrintln ''G'']] \<and>
         map (take 7) (following (SerialPrintln ''G'') tr) =
           [[Delay 100, DigitalWrite BZZ_PIN LOW, Delay 500,
             AnalogWrite G_PIN 0, DigitalWrite BZZ_PIN HIGH, AnalogWrite B_PIN 255,
             SerialPrintln ''B'']] \<and>
         following (SerialPrintln ''B'') tr =
           [[Delay 100, DigitalWrite BZZ_PIN LOW, Delay 500, AnalogWrite B_PIN 0]]"
proof -
  from cycle_split [OF assms] obtain pre t where
    ev: "list_all (\<lambda>e. wait_event e \<or> is_serial_input e \<or> e = SerialPrintlnChar CHR ''T'') pre"
    and tr: "tr = (pre @ [Millis t]) @ stop_sled @ pulse_leds"
    by blast
  have "following (SerialPrintln s) tr = following (SerialPrintln s) (stop_sled @ pulse_leds)"
    for s
    unfolding tr by (rule following_append) (rule before_pulses_notin [OF ev], simp_all)
  then show ?thesis by (simp add: stop_sled_def pulse_leds_def)
qed

theorem C7_witness:
  "serial world_T 0 = Some CHR ''T'' \<and> snd (loop 4 init_sketch world_T) \<noteq> None \<and>
   following (SerialPrintln ''B'') (fst (loop 4 init_sketch world_T)) =
     [[Delay 100, DigitalWrite BZZ_PIN LOW, Delay 500, AnalogWrite B_PIN 0]]"
  using C7_holds_after_token [OF world_T_serial run_T_eq] world_T_serial run_T_returns
  by simp

text \<open>
  C8. In a triggered cycle that returns, the call just before each token is the one that
  drives its LED channel to 255, and the call just after that one is the token: nothing
  comes between them.
\<close>

theorem C8_token_right_after_led:
  assumes "serial w 0 = Some CHR ''T''" and "loop n st w = (tr, Some r)"
  shows "preceding (SerialPrintln ''R'') tr = [Some (AnalogWrite R_PIN 255)] \<and>
         preceding (SerialPrintln ''G'') tr = [Some (AnalogWrite G_PIN 255)] \<and>
         preceding (SerialPrintln ''B'') tr = [Some (AnalogWrite B_PIN 255)] \<and>
         map (take 1) (following (AnalogWrite R_PIN 255) tr) = [[SerialPrintln ''R'']] \<and>
         map (take 1) (following (AnalogWrite G_PIN 255) tr) = [[SerialPrintln ''G'']] \<and>
         map (take 1) (following (AnalogWrite B_PIN 255) tr) = [[SerialPrintln ''B'']]"
proof -
  from cycle_split [OF assms] obtain pre t where
    ev: "list_all (\<lambda>e. wait_event e \<or> is_serial_input e \<or> e = SerialPrintlnChar CHR ''T'') pre"
    and tr: "tr = (pre @ [Millis t]) @ stop_sled @ pulse_leds"
    by blast
  have p: "preceding (SerialPrintln s) tr =
        preceding_from (Some (Millis t)) (SerialPrintln s) (stop_sled @ pulse_leds)" for s
  proof -
    have "SerialPrintln s \<notin> set (pre @ [Millis t])"
      by (rule before_pulses_notin [OF ev]) simp_all
    from preceding_from_append [OF this] show ?thesis
      unfolding tr preceding_def by simp
  qed
  have f: "following (AnalogWrite q x) tr = following (AnalogWrite q x) (stop_sled @ pulse_leds)"
    for q x
    unfolding tr by (rule following_append) (rule before_pulses_notin [OF ev], simp_all)
  show ?thesis by (simp add: p f stop_sled_def pulse_leds_def)
qed

theorem C8_witness:
  "serial world_T 0 = Some CHR ''T'' \<and> snd (loop 4 init_sketch world_T) \<noteq> None \<and>
   preceding (SerialPrintln ''G'') (fst (loop 4 init_sketch world_T)) =
     [Some (AnalogWrite G_PIN 255)]"
  using C8_token_right_after_led [OF world_T_serial run_T_eq] world_T_serial run_T_returns
  by simp

text \<open>
  C9. A call of \<open>loop()\<close> that finds T looks at the serial input in its first two
  calls only, \<open>Serial.available()\<close> and \<open>Serial.read()\<close>, before the echo and the
  test of line 42. After them, to the end of the cycle or for as long as it hangs, it
  neither polls nor reads the serial port, and on return exactly one answer of the port
  has been used.
\<close>

theorem C9_no_serial_input_in_cycle:
  assumes "serial w 0 = Some CHR ''T''"
  shows "take 3 (fst (loop n st w)) =
           [SerialAvailable True, SerialRead CHR ''T'', SerialPrintlnChar CHR ''T''] \<and>
         filter is_serial_input (drop 3 (fst (loop n st w))) = [] \<and>
         (\<forall>st' w'. snd (loop n st w) = Some (st', w') \<longrightarrow> serial w' = rest (serial w))"
proof -
  let ?w1 = "w\<lparr>serial := rest (serial w), clock := rest (clock w)\<rparr>"
  from loop_trigger_any [OF assms, of n st]
  obtain wtr x where wl: "wait_loop n (st\<lparr>inByte := 84, prevMil := clock w 0\<rparr>) HIGH ?w1
        = (wtr, x)"
    and r: "snd (loop n st w) = map_option (\<lambda>(st', sv, w'). (st', w')) x"
    and tr: "fst (loop n st w) =
             [SerialAvailable True, SerialRead CHR ''T'', SerialPrintlnChar CHR ''T'',
              Millis (clock w 0)] @ wtr @
             (case x of None \<Rightarrow> [] | Some y \<Rightarrow> stop_sled @ pulse_leds)"
    by blast
  have ev: "list_all wait_event wtr" by (rule wait_loop_events [OF wl])
  have a: "take 3 (fst (loop n st w)) =
           [SerialAvailable True, SerialRead CHR ''T'', SerialPrintlnChar CHR ''T'']"
    by (simp add: tr)
  have b: "filter is_serial_input (drop 3 (fst (loop n st w))) = []"
    by (simp add: tr wait_events_no_serial_input [OF ev] stop_sled_def pulse_leds_def
          split: option.splits)
  have c: "serial w' = rest (serial w)" if "snd (loop n st w) = Some (st', w')" for st' w'
  proof -
    from that r obtain sv where "x = Some (st', sv, w')" by auto
    from wait_loop_serial [OF wl [unfolded this]] show ?thesis by simp
  qed
  from a b c show ?thesis by blast
qed

theorem C9_witness:
  "serial world_T 0 = Some CHR ''T'' \<and> snd (loop 4 init_sketch world_T) \<noteq> None \<and>
   filter is_serial_input (fst (loop 4 init_sketch world_T)) =
     [SerialAvailable True, SerialRead CHR ''T''] \<and>
   filter is_serial_input (drop 3 (fst (loop 4 init_sketch world_T))) = []"
proof -
  have "filter is_serial_input (fst (loop 4 init_sketch world_T)) =
     [SerialAvailable True, SerialRead CHR ''T'']"
    by (simp add: run_simps stop_sled_def pulse_leds_def)
  then show ?thesis
    using C9_no_serial_input_in_cycle [OF world_T_serial, of 4 init_sketch] world_T_serial
      run_T_returns
    by simp
qed

text \<open>
  C10. In a triggered cycle that returns, the trace after the last clock reading of the
  wait-loop is the code of lines 53 to 81; it writes the motor pin once, LOW, and at every
  point of the LED pulses the last value written to the motor is LOW.
\<close>

theorem C10_motor_low_after_wait:
  assumes "serial w 0 = Some CHR ''T''" and "loop n st w = (tr, Some (st', w'))"
  shows "\<exists>pre. tr = pre @ stop_sled @ pulse_leds \<and> last pre = Millis (curMil st') \<and>
           filter (writes_to MTR_PIN) (drop (length pre) tr) = [DigitalWrite MTR_PIN LOW] \<and>
           (\<forall>k. driven MTR_PIN (pre @ stop_sled @ take k pulse_leds) = Some (Digital LOW))"
proof -
  from cycle_shape [OF assms] obtain m pre where
    cm: "curMil st' = clock w m" and
    tr: "tr = [SerialAvailable True, SerialRead CHR ''T'', SerialPrintlnChar CHR ''T'',
           Millis (clock w 0)] @ pre @ [DigitalRead IR_PIN LOW, Millis (clock w m)]
           @ stop_sled @ pulse_leds"
    by blast
  let ?pre = "[SerialAvailable True, SerialRead CHR ''T'', SerialPrintlnChar CHR ''T'',
           Millis (clock w 0)] @ pre @ [DigitalRead IR_PIN LOW, Millis (clock w m)]"
  have a: "tr = ?pre @ stop_sled @ pulse_leds" using tr by simp
  have b: "last ?pre = Millis (curMil st')" using cm by simp
  have c: "filter (writes_to MTR_PIN) (drop (length ?pre) tr) = [DigitalWrite MTR_PIN LOW]"
    unfolding a by (simp add: stop_sled_def pulse_leds_def writes_to_def)
  have d: "driven MTR_PIN (?pre @ stop_sled @ take k pulse_leds) = Some (Digital LOW)" for k
    by (simp only: driven_append pulse_leds_motor) (simp add: stop_sled_def)
  from a b c d show ?thesis by blast
qed

theorem C10_witness:
  "serial world_T 0 = Some CHR ''T'' \<and> snd (loop 4 init_sketch world_T) \<noteq> None \<and>
   (\<exists>pre. fst (loop 4 init_sketch world_T) = pre @ stop_sled @ pulse_leds \<and>
      last pre = Millis (curMil (fst (the (snd (loop 4 init_sketch world_T))))) \<and>
      filter (writes_to MTR_PIN) (drop (length pre) (fst (loop 4 init_sketch world_T))) =
        [DigitalWrite MTR_PIN LOW] \<and>
      (\<forall>k. driven MTR_PIN (pre @ stop_sled @ take k pulse_leds) = Some (Digital LOW)))"
  using C10_motor_low_after_wait [OF world_T_serial run_T_eq2] world_T_serial run_T_returns
  by blast

end
